theory Spec2Isabelle
  imports Main "HOL-Library.Word" "HOL-Library.Char_ord" "HOL-Library.List_Lexorder"
begin

section \<open>Values, errors and outcomes\<close>

text \<open>
  \<^verbatim>\<open>ValueType::Concrete\<close> of json.hpp. The enumerator \<^verbatim>\<open>Int\<close> is written \<open>Int'\<close>:
  the plain name is taken by the library's notation for set intersection.
\<close>

datatype Concrete = Object | List | String | Float | Int' | Bool | Null

text \<open>\<^verbatim>\<open>ValueType::toString\<close>.\<close>

fun toString :: "Concrete \<Rightarrow> string" where
  "toString Object = ''Object''"
| "toString List = ''List''"
| "toString String = ''String''"
| "toString Float = ''Float''"
| "toString Int' = ''Int''"
| "toString Bool = ''Bool''"
| "toString Null = ''null''"

text \<open>
  The four types of the concept \<^verbatim>\<open>is_json_leaf_type\<close> (the template parameter \<^verbatim>\<open>T\<close> of
  \<^verbatim>\<open>ValueNode\<close>, \<^verbatim>\<open>as\<close> and \<^verbatim>\<open>operator=\<close>), and a value of one of them. A C++ \<^verbatim>\<open>float\<close>
  is a value of the unspecified type \<open>cfloat\<close>: floating-point arithmetic is not modelled.
  A C++ \<^verbatim>\<open>int\<close> is a 32-bit word read in two's complement.
\<close>

typedecl cfloat

datatype leaf_type = float_t | int_t | string_t | bool_t

datatype leaf = float_v cfloat | int_v "32 word" | string_v string | bool_v bool

fun typeid :: "leaf \<Rightarrow> leaf_type" where
  "typeid (float_v _) = float_t"
| "typeid (int_v _) = int_t"
| "typeid (string_v _) = string_t"
| "typeid (bool_v _) = bool_t"

text \<open>\<^verbatim>\<open>ValueType::get<T>()\<close>, in the order of its tests.\<close>

definition ValueType_get :: "leaf_type \<Rightarrow> Concrete" where
  "ValueType_get T =
     (if T = string_t then String
      else if T = float_t then Float
      else if T = int_t then Int'
      else if T = bool_t then Bool
      else Null)"

text \<open>
  What a \<^verbatim>\<open>throw\<close> of the library carries. \<^verbatim>\<open>parseObject\<close> throws a \<^verbatim>\<open>Malformed\<close> object
  (\<^verbatim>\<open>throw Malformed()\<close>); \<^verbatim>\<open>parseValue\<close> throws a pointer to a heap-allocated one
  (\<^verbatim>\<open>throw new Malformed()\<close>), an exception of type \<^verbatim>\<open>Malformed*\<close> that no handler for
  \<^verbatim>\<open>Malformed\<close> or \<^verbatim>\<open>std::exception\<close> catches: \<open>Malformed_ptr\<close>. A \<^verbatim>\<open>WrongObjectType\<close>
  carries its message. \<^verbatim>\<open>std::string::substr\<close> throws \<^verbatim>\<open>std::out_of_range\<close>.
\<close>

datatype exn = Malformed | Malformed_ptr | WrongObjectType string | std_out_of_range

definition NotObject :: exn where
  "NotObject = WrongObjectType ''This is not a json object.''"

definition NotList :: exn where
  "NotList = WrongObjectType ''This is not a list object.''"

definition NotLeaf :: "leaf_type \<Rightarrow> exn" where
  "NotLeaf T = WrongObjectType (''This is not leaf type '' @ toString (ValueType_get T) @ ''.'')"

definition Unknown :: exn where
  "Unknown = WrongObjectType ''Unknown object type.''"

text \<open>
  The outcome of a call: a result, an exception, or undefined behaviour of C++ (a read
  past the end of a string or vector, a \<^verbatim>\<open>static_pointer_cast\<close> to a class the object is
  not of, \<^verbatim>\<open>atoi\<close> of a number that does not fit). \<open>OutOfFuel\<close> is the model's own: the
  recursive-descent parser below counts its calls down from a bound.
\<close>

datatype 'a outcome = Ok 'a | Throw exn | Undefined | OutOfFuel

section \<open>Nodes and the heap\<close>

text \<open>
  The classes \<^verbatim>\<open>NullNode\<close>, \<^verbatim>\<open>ObjectNode\<close>, \<^verbatim>\<open>ListNode\<close> and \<^verbatim>\<open>ValueNode<T>\<close>. The type
  parameter is what a \<^verbatim>\<open>std::shared_ptr<Node>\<close> child is: an address of the heap for the
  nodes of a document, a subtree for the fresh, unshared nodes the parser returns.
  The \<^verbatim>\<open>std::map\<close> of an \<^verbatim>\<open>ObjectNode\<close> is the list of its entries in key order.
\<close>

datatype 'r Node =
    NullNode
  | ObjectNode "(string \<times> 'r) list"
  | ListNode "'r list"
  | ValueNode leaf

text \<open>\<^verbatim>\<open>Node::type()\<close>: the tag each constructor passes to \<^verbatim>\<open>Node(type)\<close>.\<close>

fun Node_type :: "'r Node \<Rightarrow> Concrete" where
  "Node_type NullNode = Null"
| "Node_type (ObjectNode _) = Object"
| "Node_type (ListNode _) = List"
| "Node_type (ValueNode x) = ValueType_get (typeid x)"

text \<open>
  \<^verbatim>\<open>children[key] = child\<close> on the \<^verbatim>\<open>std::map\<close> (\<^verbatim>\<open>ObjectNode::addOrEditChild\<close>): the entry is
  overwritten when the key is there, and inserted at its place in key order when not.
  \<^verbatim>\<open>std::string\<close> compares bytewise and lexicographically, as \<open>(<)\<close> on \<open>string\<close> does.
\<close>

fun addOrEditChild :: "string \<Rightarrow> 'r \<Rightarrow> (string \<times> 'r) list \<Rightarrow> (string \<times> 'r) list" where
  "addOrEditChild key child [] = [(key, child)]"
| "addOrEditChild key child ((k, v) # children) =
     (if key < k then (key, child) # (k, v) # children
      else if key = k then (k, child) # children
      else (k, v) # addOrEditChild key child children)"

text \<open>
  The heap: the nodes allocated so far, a node's address being its index.
  \<^verbatim>\<open>std::make_shared\<close> appends. Nodes are never removed: a \<^verbatim>\<open>shared_ptr\<close> frees a node only
  when nothing refers to it any more.
\<close>

type_synonym addr = nat

type_synonym heap = "addr Node list"

definition make_shared :: "heap \<Rightarrow> addr Node \<Rightarrow> heap \<times> addr" where
  "make_shared h n = (h @ [n], length h)"

text \<open>\<^verbatim>\<open>node->addOrEditChild(key, child)\<close> and \<^verbatim>\<open>node->addChild(child)\<close> on a node of the heap.\<close>

definition ObjectNode_addOrEditChild :: "heap \<Rightarrow> addr \<Rightarrow> string \<Rightarrow> addr \<Rightarrow> heap" where
  "ObjectNode_addOrEditChild h node key child =
     (case h ! node of
        ObjectNode children \<Rightarrow> h[node := ObjectNode (addOrEditChild key child children)]
      | _ \<Rightarrow> h)"

definition ListNode_addChild :: "heap \<Rightarrow> addr \<Rightarrow> addr \<Rightarrow> heap" where
  "ListNode_addChild h node child =
     (case h ! node of
        ListNode children \<Rightarrow> h[node := ListNode (children @ [child])]
      | _ \<Rightarrow> h)"

section \<open>Documents and views\<close>

text \<open>
  A \<^verbatim>\<open>Json\<close> holds the \<^verbatim>\<open>shared_ptr\<close> to its root. A \<^verbatim>\<open>View\<close> holds a pointer to a copy of
  the \<^verbatim>\<open>shared_ptr\<close> it was made from; nothing ever assigns to that copy, so a view is the
  address of the node it was made from.
\<close>

datatype Json = Json (root: addr)

datatype View = View (node: addr)

text \<open>\<^verbatim>\<open>Json::Json(T value)\<close> for a leaf type \<^verbatim>\<open>T\<close>.\<close>

definition Json_leaf :: "heap \<Rightarrow> leaf \<Rightarrow> heap \<times> Json" where
  "Json_leaf h x = (let (h1, a) = make_shared h (ValueNode x) in (h1, Json a))"

text \<open>
  \<^verbatim>\<open>std::string(const char*)\<close>: the characters before the first NUL of the array the
  pointer points into.
\<close>

definition std_string :: "string \<Rightarrow> string" where
  "std_string chars = takeWhile (\<lambda>c. c \<noteq> CHR 0x00) chars"

text \<open>\<^verbatim>\<open>Json::Json(const char* value) : Json(std::string(value))\<close>.\<close>

definition Json_cstr :: "heap \<Rightarrow> string \<Rightarrow> heap \<times> Json" where
  "Json_cstr h chars = Json_leaf h (string_v (std_string chars))"

text \<open>\<^verbatim>\<open>Json::Json(std::initializer_list<std::pair<std::string, Json>>)\<close>.\<close>

definition Json_object :: "heap \<Rightarrow> (string \<times> Json) list \<Rightarrow> heap \<times> Json" where
  "Json_object h list =
     (let (h1, node) = make_shared h (ObjectNode [])
      in (foldl (\<lambda>h' (key, v). ObjectNode_addOrEditChild h' node key (root v)) h1 list,
          Json node))"

text \<open>\<^verbatim>\<open>Json::array\<close>.\<close>

definition Json_array :: "heap \<Rightarrow> Json list \<Rightarrow> heap \<times> Json" where
  "Json_array h list =
     (let (h1, node) = make_shared h (ListNode [])
      in (foldl (\<lambda>h' v. ListNode_addChild h' node (root v)) h1 list, Json node))"

text \<open>
  The body shared by \<^verbatim>\<open>Json::operator[](std::string)\<close> and
  \<^verbatim>\<open>Json::View::operator[](std::string)\<close>, on the node \<open>a\<close> (the root, or the view's node).
  A \<^verbatim>\<open>dynamic_pointer_cast\<close> to a class the node is not of gives a null pointer, and the
  call through it is undefined.
\<close>

definition index_key :: "heap \<Rightarrow> addr \<Rightarrow> string \<Rightarrow> (heap \<times> View) outcome" where
  "index_key h a key =
     (if length h \<le> a then Undefined
      else if Node_type (h ! a) \<noteq> Object then Throw NotObject
      else case h ! a of
        ObjectNode children \<Rightarrow>
          (case map_of children key of
             None \<Rightarrow>
               (let (h1, newNode) = make_shared h NullNode
                in Ok (ObjectNode_addOrEditChild h1 a key newNode, View newNode))
           | Some child \<Rightarrow> Ok (h, View child))
      | _ \<Rightarrow> Undefined)"

definition Json_index_key :: "heap \<Rightarrow> Json \<Rightarrow> string \<Rightarrow> (heap \<times> View) outcome" where
  "Json_index_key h j key = index_key h (root j) key"

definition View_index_key :: "heap \<Rightarrow> View \<Rightarrow> string \<Rightarrow> (heap \<times> View) outcome" where
  "View_index_key h v key = index_key h (node v) key"

text \<open>
  \<^verbatim>\<open>Json::operator[](size_t)\<close> and \<^verbatim>\<open>Json::View::operator[](size_t)\<close>: \<^verbatim>\<open>std::vector\<close>'s
  \<^verbatim>\<open>operator[]\<close> does not check its index.
\<close>

definition index_idx :: "heap \<Rightarrow> addr \<Rightarrow> nat \<Rightarrow> View outcome" where
  "index_idx h a idx =
     (if length h \<le> a then Undefined
      else if Node_type (h ! a) \<noteq> List then Throw NotList
      else case h ! a of
        ListNode children \<Rightarrow> (if idx < length children then Ok (View (children ! idx)) else Undefined)
      | _ \<Rightarrow> Undefined)"

definition Json_index_idx :: "heap \<Rightarrow> Json \<Rightarrow> nat \<Rightarrow> View outcome" where
  "Json_index_idx h j idx = index_idx h (root j) idx"

definition View_index_idx :: "heap \<Rightarrow> View \<Rightarrow> nat \<Rightarrow> View outcome" where
  "View_index_idx h v idx = index_idx h (node v) idx"

text \<open>
  \<^verbatim>\<open>View::as<T>()\<close>: \<^verbatim>\<open>std::static_pointer_cast<ValueNode<T>>(*node)->value()\<close>. The cast
  checks nothing; the call is defined only when the node is a \<^verbatim>\<open>ValueNode<T>\<close>.
\<close>

definition View_as :: "leaf_type \<Rightarrow> heap \<Rightarrow> View \<Rightarrow> leaf outcome" where
  "View_as T h v =
     (if length h \<le> node v then Undefined
      else case h ! node v of
        ValueNode x \<Rightarrow> (if typeid x = T then Ok x else Undefined)
      | _ \<Rightarrow> Undefined)"

text \<open>
  \<^verbatim>\<open>View::operator=(T value)\<close>: \<^verbatim>\<open>*std::static_pointer_cast<ValueNode<T>>(*node) = value\<close>,
  with the same unchecked cast; \<^verbatim>\<open>T\<close> is the type of the value.
\<close>

definition View_assign :: "heap \<Rightarrow> View \<Rightarrow> leaf \<Rightarrow> (heap \<times> View) outcome" where
  "View_assign h v x =
     (if length h \<le> node v then Undefined
      else case h ! node v of
        ValueNode y \<Rightarrow> (if typeid y = typeid x then Ok (h[node v := ValueNode x], v) else Undefined)
      | _ \<Rightarrow> Undefined)"

section \<open>The compact serializer\<close>

definition quote :: char where
  "quote = CHR 0x22"

text \<open>
  \<^verbatim>\<open>os << value_\<close> for an \<^verbatim>\<open>int\<close>: the decimal digits, after a \<^verbatim>\<open>-\<close> when the value is
  negative.
\<close>

definition digit_char :: "nat \<Rightarrow> char" where
  "digit_char d = char_of (of_char CHR ''0'' + d :: nat)"

fun show_nat :: "nat \<Rightarrow> string" where
  "show_nat n = (if n < 10 then [digit_char n] else show_nat (n div 10) @ [digit_char (n mod 10)])"

declare show_nat.simps [simp del]

definition show_int :: "32 word \<Rightarrow> string" where
  "show_int i =
     (if sint i < 0 then CHR ''-'' # show_nat (nat (- sint i)) else show_nat (nat (sint i)))"

text \<open>\<^verbatim>\<open>os << value_\<close> for a \<^verbatim>\<open>float\<close>: some text, left unspecified.\<close>

definition show_float :: "cfloat \<Rightarrow> string" where
  "show_float f = undefined f"

text \<open>
  \<^verbatim>\<open>ValueNode<T>::dump\<close>, with its specialisations for \<^verbatim>\<open>bool\<close> and \<^verbatim>\<open>std::string\<close>.
\<close>

fun ValueNode_dump :: "leaf \<Rightarrow> string" where
  "ValueNode_dump (bool_v b) = (if b then ''true'' else ''false'')"
| "ValueNode_dump (string_v s) = [quote] @ s @ [quote]"
| "ValueNode_dump (int_v i) = show_int i"
| "ValueNode_dump (float_v f) = show_float f"

text \<open>
  \<^verbatim>\<open>Node::dump\<close> with its overrides \<^verbatim>\<open>NullNode::dump\<close>, \<^verbatim>\<open>ListNode::dump\<close> and
  \<^verbatim>\<open>ObjectNode::dump\<close>, the text written to the stream being the result. The virtual
  call follows the children's pointers; the first argument bounds the depth it follows
  them to, and \<open>None\<close> says the bound was reached (or an address is not of the heap).
  The two loops write a comma after every child but the last.
\<close>

fun dump :: "nat \<Rightarrow> heap \<Rightarrow> addr \<Rightarrow> string option"
and ListNode_dump :: "nat \<Rightarrow> heap \<Rightarrow> addr list \<Rightarrow> string option"
and ObjectNode_dump :: "nat \<Rightarrow> heap \<Rightarrow> (string \<times> addr) list \<Rightarrow> string option" where
  "dump 0 h a = None"
| "dump (Suc n) h a =
     (if length h \<le> a then None
      else case h ! a of
        NullNode \<Rightarrow> Some ''null''
      | ValueNode x \<Rightarrow> Some (ValueNode_dump x)
      | ListNode children \<Rightarrow>
          (case ListNode_dump n h children of
             None \<Rightarrow> None
           | Some s \<Rightarrow> Some (''['' @ s @ '']''))
      | ObjectNode children \<Rightarrow>
          (case ObjectNode_dump n h children of
             None \<Rightarrow> None
           | Some s \<Rightarrow> Some (''{'' @ s @ ''}'')))"
| "ListNode_dump n h [] = Some []"
| "ListNode_dump n h (c # cs) =
     (case dump n h c of
        None \<Rightarrow> None
      | Some s \<Rightarrow>
          (case ListNode_dump n h cs of
             None \<Rightarrow> None
           | Some r \<Rightarrow> Some (s @ (if cs = [] then [] else '','') @ r)))"
| "ObjectNode_dump n h [] = Some []"
| "ObjectNode_dump n h ((key, v) # kvs) =
     (case dump n h v of
        None \<Rightarrow> None
      | Some s \<Rightarrow>
          (case ObjectNode_dump n h kvs of
             None \<Rightarrow> None
           | Some r \<Rightarrow>
               Some ([quote] @ key @ [quote] @ '':'' @ s @ (if kvs = [] then [] else '','') @ r)))"

text \<open>\<^verbatim>\<open>Json::dump\<close>: \<^verbatim>\<open>root->dump(os)\<close>.\<close>

definition Json_dump :: "nat \<Rightarrow> heap \<Rightarrow> Json \<Rightarrow> string option" where
  "Json_dump n h j = dump n h (root j)"

text \<open>
  The parents of a node: the containers of the heap that hold a pointer to it.
\<close>

fun getChildren :: "addr Node \<Rightarrow> addr list" where
  "getChildren (ObjectNode children) = map snd children"
| "getChildren (ListNode children) = children"
| "getChildren _ = []"

definition parents :: "heap \<Rightarrow> addr \<Rightarrow> addr list" where
  "parents h a = filter (\<lambda>p. a \<in> set (getChildren (h ! p))) [0..<length h]"

section \<open>The parser\<close>

text \<open>
  What \<^verbatim>\<open>parse\<close> and its helpers return: a pointer to a node they have just allocated,
  which nothing else refers to, that is the node with the subtrees below it.
\<close>

datatype tree = Tree "tree Node"

text \<open>\<^verbatim>\<open>std::isspace\<close> in the "C" locale: space, \<^verbatim>\<open>\t\<close>, \<^verbatim>\<open>\n\<close>, \<^verbatim>\<open>\v\<close>, \<^verbatim>\<open>\f\<close> and \<^verbatim>\<open>\r\<close>.\<close>

definition isspace :: "char \<Rightarrow> bool" where
  "isspace ch \<longleftrightarrow> ch = CHR '' '' \<or> ch = CHR 0x09 \<or> ch = CHR 0x0A \<or> ch = CHR 0x0B
     \<or> ch = CHR 0x0C \<or> ch = CHR 0x0D"

text \<open>
  The first loop of \<^verbatim>\<open>parse\<close>, from the value \<open>inside\<close> of its flag on: the characters
  written to \<^verbatim>\<open>oss\<close>.
\<close>

fun remove_whitespace :: "bool \<Rightarrow> string \<Rightarrow> string" where
  "remove_whitespace inside [] = []"
| "remove_whitespace inside (ch # str) =
     (let inside' = (if ch = quote then \<not> inside else inside)
      in if isspace ch \<and> \<not> inside' then remove_whitespace inside' str
         else ch # remove_whitespace inside' str)"

text \<open>
  \<^verbatim>\<open>json[index]\<close> for \<open>index \<le> length json\<close>: \<^verbatim>\<open>std::string\<close>'s \<^verbatim>\<open>operator[]\<close> gives the NUL
  character at the position \<^verbatim>\<open>size()\<close>. A read past it is undefined, and every function
  below tests for it where the source reads.
\<close>

definition string_at :: "string \<Rightarrow> nat \<Rightarrow> char" where
  "string_at json index = (if index < length json then json ! index else CHR 0x00)"

text \<open>The lambda \<^verbatim>\<open>is_number\<close> of \<^verbatim>\<open>parseValue\<close>.\<close>

definition is_number :: "char \<Rightarrow> bool" where
  "is_number ch \<longleftrightarrow> CHR ''0'' \<le> ch \<and> ch \<le> CHR ''9''"

text \<open>
  The loop \<^verbatim>\<open>while (json[index] != '"') { key << json[index++]; }\<close> of \<^verbatim>\<open>parseObject\<close> and
  \<^verbatim>\<open>parseValue\<close>, on the characters from \<^verbatim>\<open>index\<close> on: it returns the text read and the
  index of the quote it stopped at. With no quote left it reads the NUL at \<^verbatim>\<open>size()\<close>,
  steps over it, and reads past the end of the string.
\<close>

fun scan_string :: "string \<Rightarrow> string \<Rightarrow> nat \<Rightarrow> (string \<times> nat) outcome" where
  "scan_string [] acc index = Undefined"
| "scan_string (c # cs) acc index =
     (if c = quote then Ok (acc, index) else scan_string cs (acc @ [c]) (Suc index))"

text \<open>
  The loop \<^verbatim>\<open>while (json[index] == '.' || is_number(json[index]))\<close> of \<^verbatim>\<open>parseValue\<close>, on
  the characters from \<^verbatim>\<open>index\<close> on: the text of \<^verbatim>\<open>number\<close>, the flag \<^verbatim>\<open>is_float\<close> and the
  index it stopped at (the NUL at \<^verbatim>\<open>size()\<close> stops it).
\<close>

fun scan_number :: "string \<Rightarrow> string \<Rightarrow> bool \<Rightarrow> nat \<Rightarrow> string \<times> bool \<times> nat" where
  "scan_number [] number is_float index = (number, is_float, index)"
| "scan_number (c # cs) number is_float index =
     (if c = CHR ''.'' \<or> is_number c
      then scan_number cs (number @ [c]) (if c = CHR ''.'' then True else is_float) (Suc index)
      else (number, is_float, index))"

text \<open>
  \<^verbatim>\<open>std::atoi\<close> on a text that starts with a digit, as \<^verbatim>\<open>number\<close> does: the value of its
  leading digits, undefined when an \<^verbatim>\<open>int\<close> cannot hold it. \<^verbatim>\<open>std::atof\<close>, narrowed to
  \<^verbatim>\<open>float\<close>, is left unspecified.
\<close>

definition atoi :: "string \<Rightarrow> 32 word outcome" where
  "atoi s =
     (let n = foldl (\<lambda>n c. 10 * n + (of_char c - of_char CHR ''0'')) (0::nat) (takeWhile is_number s)
      in if n < 2 ^ 31 then Ok (word_of_nat n) else Undefined)"

definition atof :: "string \<Rightarrow> cfloat" where
  "atof s = undefined s"

text \<open>\<^verbatim>\<open>parseValue\<close>. \<^verbatim>\<open>json.substr(index, 4)\<close> throws when \<^verbatim>\<open>index\<close> is beyond \<^verbatim>\<open>size()\<close>.\<close>

definition parseValue :: "string \<Rightarrow> nat \<Rightarrow> (tree \<times> nat) outcome" where
  "parseValue json index =
     (if length json < index then Throw std_out_of_range
      else if take 4 (drop index json) = ''true''
        then Ok (Tree (ValueNode (bool_v True)), index + 4)
      else if take 5 (drop index json) = ''false''
        then Ok (Tree (ValueNode (bool_v False)), index + 5)
      else if is_number (string_at json index) then
        (case scan_number (drop index json) [] False index of
           (number, is_float, index') \<Rightarrow>
             if is_float then Ok (Tree (ValueNode (float_v (atof number))), index')
             else (case atoi number of
                     Ok i \<Rightarrow> Ok (Tree (ValueNode (int_v i)), index')
                   | _ \<Rightarrow> Undefined))
      else if string_at json index = quote then
        (case scan_string (drop (Suc index) json) [] (Suc index) of
           Ok (string, index') \<Rightarrow> Ok (Tree (ValueNode (string_v string)), Suc index')
         | _ \<Rightarrow> Undefined)
      else Throw Malformed_ptr)"

text \<open>
  \<^verbatim>\<open>parseRecursively\<close>, with the \<^verbatim>\<open>while\<close> loops of \<^verbatim>\<open>parseObject\<close> and \<^verbatim>\<open>parseList\<close> as
  functions of the index and of the children added so far; \<^verbatim>\<open>parseObject\<close> and
  \<^verbatim>\<open>parseList\<close> step over the opening bracket and enter their loop with no children. The
  first argument counts the calls and iterations down; \<open>parse\<close> starts it at a bound
  that is never used up (\<open>parse_not_OutOfFuel\<close> below): a call and an iteration each
  use one unit, and between them they consume a character.
\<close>

fun parseRecursively :: "nat \<Rightarrow> string \<Rightarrow> nat \<Rightarrow> (tree \<times> nat) outcome"
and parseObject_loop :: "nat \<Rightarrow> string \<Rightarrow> nat \<Rightarrow> (string \<times> tree) list \<Rightarrow> (tree \<times> nat) outcome"
and parseList_loop :: "nat \<Rightarrow> string \<Rightarrow> nat \<Rightarrow> tree list \<Rightarrow> (tree \<times> nat) outcome" where
  "parseRecursively 0 json index = OutOfFuel"
| "parseRecursively (Suc n) json index =
     (if length json < index then Undefined
      else if string_at json index = CHR ''{'' then parseObject_loop n json (Suc index) []
      else if string_at json index = CHR ''['' then parseList_loop n json (Suc index) []
      else parseValue json index)"
| "parseObject_loop 0 json index children = OutOfFuel"
| "parseObject_loop (Suc n) json index children =
     (if length json < index then Undefined
      else if string_at json index = CHR ''}'' then Ok (Tree (ObjectNode children), Suc index)
      else if string_at json index \<noteq> quote then Throw Malformed
      else (case scan_string (drop (Suc index) json) [] (Suc index) of
              Ok (key, index1) \<Rightarrow>
                (case parseRecursively n json (index1 + 2) of
                   Ok (v, index2) \<Rightarrow>
                     if length json < index2 then Undefined
                     else parseObject_loop n json
                            (if string_at json index2 \<noteq> CHR ''}'' then Suc index2 else index2)
                            (addOrEditChild key v children)
                 | Throw e \<Rightarrow> Throw e
                 | Undefined \<Rightarrow> Undefined
                 | OutOfFuel \<Rightarrow> OutOfFuel)
            | _ \<Rightarrow> Undefined))"
| "parseList_loop 0 json index children = OutOfFuel"
| "parseList_loop (Suc n) json index children =
     (if length json < index then Undefined
      else if string_at json index = CHR '']'' then Ok (Tree (ListNode children), Suc index)
      else (case parseRecursively n json index of
              Ok (v, index2) \<Rightarrow>
                if length json < index2 then Undefined
                else parseList_loop n json
                       (if string_at json index2 \<noteq> CHR '']'' then Suc index2 else index2)
                       (children @ [v])
            | Throw e \<Rightarrow> Throw e
            | Undefined \<Rightarrow> Undefined
            | OutOfFuel \<Rightarrow> OutOfFuel))"

definition parseObject :: "nat \<Rightarrow> string \<Rightarrow> nat \<Rightarrow> (tree \<times> nat) outcome" where
  "parseObject n json index = parseObject_loop n json (Suc index) []"

definition parseList :: "nat \<Rightarrow> string \<Rightarrow> nat \<Rightarrow> (tree \<times> nat) outcome" where
  "parseList n json index = parseList_loop n json (Suc index) []"

text \<open>\<^verbatim>\<open>parse\<close>.\<close>

definition parse :: "string \<Rightarrow> tree outcome" where
  "parse str =
     (let str_clean = remove_whitespace False str
      in case parseRecursively (length str_clean + length str_clean + 2) str_clean 0 of
           Ok (t, index) \<Rightarrow> Ok t
         | Throw e \<Rightarrow> Throw e
         | Undefined \<Rightarrow> Undefined
         | OutOfFuel \<Rightarrow> OutOfFuel)"

section \<open>The vocabulary of the claims\<close>

text \<open>
  The first pass as the specification words it: a character is inside a string region
  when the quotes up to and including it are odd in number (the flag toggles at every
  quote), and the pass keeps, in order, every character but the whitespace outside the
  string regions.
\<close>

definition inside_string :: "string \<Rightarrow> nat \<Rightarrow> bool" where
  "inside_string str i \<longleftrightarrow> odd (length (filter (\<lambda>c. c = quote) (take (Suc i) str)))"

definition spec_remove_whitespace :: "string \<Rightarrow> string" where
  "spec_remove_whitespace str =
     map (\<lambda>i. str ! i)
       (filter (\<lambda>i. \<not> (isspace (str ! i) \<and> \<not> inside_string str i)) [0..<length str])"

text \<open>
  The number token as the specification words it: the longest run of digits and at most
  one \<^verbatim>\<open>.\<close> (the flag says that one was seen).
\<close>

fun spec_number_run :: "bool \<Rightarrow> string \<Rightarrow> string" where
  "spec_number_run seen [] = []"
| "spec_number_run seen (c # cs) =
     (if is_number c then c # spec_number_run seen cs
      else if c = CHR ''.'' \<and> \<not> seen then c # spec_number_run True cs
      else [])"

text \<open>
  A parsed tree equals the tree below a node of the heap in kind and leaf value at every
  position (to the depth of the first argument): the same class of node, the same value
  in a leaf, the same keys in an object, and children that are equal in turn.
\<close>

fun same_tree :: "nat \<Rightarrow> heap \<Rightarrow> addr \<Rightarrow> tree \<Rightarrow> bool" where
  "same_tree 0 h a t = False"
| "same_tree (Suc n) h a (Tree m) =
     (a < length h \<and>
      (case (h ! a, m) of
         (NullNode, NullNode) \<Rightarrow> True
       | (ValueNode x, ValueNode y) \<Rightarrow> x = y
       | (ListNode cs, ListNode ts) \<Rightarrow> list_all2 (\<lambda>c t. same_tree n h c t) cs ts
       | (ObjectNode kvs, ObjectNode kts) \<Rightarrow>
           map fst kvs = map fst kts
           \<and> list_all2 (\<lambda>c t. same_tree n h c t) (map snd kvs) (map snd kts)
       | _ \<Rightarrow> False))"

text \<open>
  The trees that survive serializing and parsing: no \<^verbatim>\<open>NullNode\<close> and no \<^verbatim>\<open>float\<close>, no
  negative \<^verbatim>\<open>int\<close>, no quote in a string or in a key. The entries of an object are in
  strict key order, as those of a \<^verbatim>\<open>std::map\<close> are.
\<close>

fun plain_leaf :: "leaf \<Rightarrow> bool" where
  "plain_leaf (bool_v b) = True"
| "plain_leaf (int_v i) = (0 \<le> sint i)"
| "plain_leaf (string_v s) = (quote \<notin> set s)"
| "plain_leaf (float_v f) = False"

fun plain_tree :: "nat \<Rightarrow> heap \<Rightarrow> addr \<Rightarrow> bool" where
  "plain_tree 0 h a = False"
| "plain_tree (Suc n) h a =
     (a < length h \<and>
      (case h ! a of
         NullNode \<Rightarrow> False
       | ValueNode x \<Rightarrow> plain_leaf x
       | ListNode cs \<Rightarrow> list_all (\<lambda>c. plain_tree n h c) cs
       | ObjectNode kvs \<Rightarrow>
           sorted_wrt (<) (map fst kvs)
           \<and> list_all (\<lambda>kv. quote \<notin> set (fst kv) \<and> plain_tree n h (snd kv)) kvs))"

text \<open>
  For the proofs: the children an object constructor has inserted; what may follow a
  token (no digit and no \<^verbatim>\<open>.\<close>, which the number loop would read on); a text the first
  pass leaves as it is; and a node that serializes to a text which parses back, at any
  place of a buffer, to a tree equal to it.
\<close>

definition insert_all :: "(string \<times> addr) list \<Rightarrow> (string \<times> Json) list \<Rightarrow> (string \<times> addr) list" where
  "insert_all children list = foldl (\<lambda>kvs (key, v). addOrEditChild key (root v) kvs) children list"

fun delimited :: "string \<Rightarrow> bool" where
  "delimited [] = True"
| "delimited (c # cs) = (\<not> is_number c \<and> c \<noteq> CHR ''.'')"

definition ws_free :: "string \<Rightarrow> bool" where
  "ws_free text \<longleftrightarrow>
     (\<forall>rest. remove_whitespace False (text @ rest) = text @ remove_whitespace False rest)"

definition parses_to :: "string \<Rightarrow> tree \<Rightarrow> bool" where
  "parses_to text t \<longleftrightarrow>
     (\<forall>pre rest fuel. delimited rest \<longrightarrow> length text < fuel \<longrightarrow>
        parseRecursively fuel (pre @ text @ rest) (length pre) = Ok (t, length pre + length text))"

definition renders :: "nat \<Rightarrow> heap \<Rightarrow> addr \<Rightarrow> string \<Rightarrow> tree \<Rightarrow> bool" where
  "renders n h a text t \<longleftrightarrow>
     dump n h a = Some text \<and> same_tree n h a t \<and> text \<noteq> [] \<and> hd text \<noteq> CHR '']''
     \<and> ws_free text \<and> parses_to text t"

section \<open>Facts about the model\<close>

subsection \<open>Evaluation\<close>

lemma digit_char_simps:
  "digit_char 0 = CHR ''0''" "digit_char (Suc 0) = CHR ''1''" "digit_char 1 = CHR ''1''"
  "digit_char 2 = CHR ''2''" "digit_char 3 = CHR ''3''" "digit_char 4 = CHR ''4''"
  "digit_char 5 = CHR ''5''" "digit_char 6 = CHR ''6''" "digit_char 7 = CHR ''7''"
  "digit_char 8 = CHR ''8''" "digit_char 9 = CHR ''9''"
  by code_simp+

lemmas parse_eval = parse_def parseValue_def string_at_def quote_def isspace_def is_number_def
  atoi_def less_eq_char_def

subsection \<open>Objects and their maps\<close>

lemma map_of_addOrEditChild:
  "map_of (addOrEditChild key child children) = (map_of children)(key \<mapsto> child)"
  by (induction children) (auto simp: fun_upd_twist)

lemma set_fst_addOrEditChild:
  "set (map fst (addOrEditChild key child children)) = insert key (set (map fst children))"
proof -
  have "set (map fst (addOrEditChild key child children))
      = dom (map_of (addOrEditChild key child children))"
    by (simp add: dom_map_of_conv_image_fst)
  also have "\<dots> = insert key (dom (map_of children))"
    by (simp add: map_of_addOrEditChild)
  finally show ?thesis
    by (simp add: dom_map_of_conv_image_fst)
qed

lemma sorted_addOrEditChild:
  "sorted_wrt (<) (map fst children)
   \<Longrightarrow> sorted_wrt (<) (map fst (addOrEditChild key child children))"
proof (induction children)
  case Nil
  then show ?case by simp
next
  case (Cons kv children)
  obtain k v where kv: "kv = (k, v)" by (cases kv)
  have "\<forall>x \<in> set (map fst (addOrEditChild key child children)). k < x" if "k < key"
    using Cons.prems that unfolding set_fst_addOrEditChild by (auto simp: kv)
  with Cons show ?case
    by (auto simp: kv)
qed

lemma addOrEditChild_last:
  "\<forall>k \<in> set (map fst children). k < key
   \<Longrightarrow> addOrEditChild key child children = children @ [(key, child)]"
  by (induction children) auto

subsection \<open>Construction\<close>

lemma foldl_ListNode_addChild:
  "foldl (\<lambda>h' v. ListNode_addChild h' (length h) (root v)) (h @ [ListNode cs]) list
     = h @ [ListNode (cs @ map root list)]"
  by (induction list arbitrary: cs) (simp_all add: ListNode_addChild_def)

lemma Json_array_eq:
  "Json_array h list = (h @ [ListNode (map root list)], Json (length h))"
  using foldl_ListNode_addChild [of h "[]" list]
  by (simp add: Json_array_def make_shared_def)

lemma foldl_ObjectNode_addOrEditChild:
  "foldl (\<lambda>h' (key, v). ObjectNode_addOrEditChild h' (length h) key (root v))
     (h @ [ObjectNode kvs]) list
     = h @ [ObjectNode (insert_all kvs list)]"
  by (induction list arbitrary: kvs)
     (simp_all add: ObjectNode_addOrEditChild_def insert_all_def split: prod.splits)

lemma Json_object_eq:
  "Json_object h list = (h @ [ObjectNode (insert_all [] list)], Json (length h))"
  using foldl_ObjectNode_addOrEditChild [of h "[]" list]
  by (simp add: Json_object_def make_shared_def)

lemma map_of_insert_all:
  "map_of (insert_all kvs list)
     = map_of kvs ++ map_of (rev (map (\<lambda>(key, v). (key, root v)) list))"
proof (induction list arbitrary: kvs)
  case Nil
  then show ?case by (simp add: insert_all_def)
next
  case (Cons p list)
  obtain key v where p: "p = (key, v)" by (cases p)
  have "insert_all kvs (p # list) = insert_all (addOrEditChild key (root v) kvs) list"
    by (simp add: insert_all_def p)
  then show ?case
    by (auto simp: Cons.IH map_of_addOrEditChild p map_add_def split: option.splits)
qed

lemma sorted_insert_all:
  "sorted_wrt (<) (map fst kvs) \<Longrightarrow> sorted_wrt (<) (map fst (insert_all kvs list))"
  by (induction list arbitrary: kvs) (auto simp: insert_all_def sorted_addOrEditChild)

lemma set_snd_insert_all:
  "set (map snd (insert_all [] list))
     = ran (map_of (rev (map (\<lambda>(key, v). (key, root v)) list)))"
proof -
  have "sorted_wrt (<) (map fst (insert_all [] list))"
    by (rule sorted_insert_all) simp
  then have "distinct (map fst (insert_all [] list))"
    by (simp add: strict_sorted_iff)
  then have "ran (map_of (insert_all [] list)) = snd ` set (insert_all [] list)"
    by (rule ran_distinct)
  then show ?thesis
    by (simp add: map_of_insert_all)
qed

lemma parents_append:
  "parents (h @ [n]) a = parents h a @ (if a \<in> set (getChildren n) then [length h] else [])"
proof -
  have "filter (\<lambda>p. a \<in> set (getChildren ((h @ [n]) ! p))) [0..<length h]
      = filter (\<lambda>p. a \<in> set (getChildren (h ! p))) [0..<length h]"
    by (rule filter_cong) (simp_all add: nth_append)
  then show ?thesis
    by (simp add: parents_def)
qed

subsection \<open>The first pass\<close>

lemma remove_whitespace_append:
  "remove_whitespace b (xs @ ys)
     = remove_whitespace b xs
       @ remove_whitespace (if odd (length (filter (\<lambda>c. c = quote) xs)) then \<not> b else b) ys"
  by (induction xs arbitrary: b) (auto simp: Let_def)

lemma spec_remove_whitespace_snoc:
  "spec_remove_whitespace (xs @ [x])
     = spec_remove_whitespace xs
       @ (if isspace x \<and> \<not> odd (length (filter (\<lambda>c. c = quote) (xs @ [x]))) then [] else [x])"
proof -
  let ?keep = "\<lambda>str i. \<not> (isspace (str ! i) \<and> \<not> inside_string str i)"
  have keep: "filter (?keep (xs @ [x])) [0..<length xs] = filter (?keep xs) [0..<length xs]"
    by (rule filter_cong) (simp_all add: inside_string_def nth_append)
  have "map (\<lambda>i. (xs @ [x]) ! i) (filter (?keep xs) [0..<length xs])
      = map (\<lambda>i. xs ! i) (filter (?keep xs) [0..<length xs])"
    by (rule map_cong) (simp_all add: nth_append)
  with keep show ?thesis
    by (simp add: spec_remove_whitespace_def inside_string_def)
qed

subsection \<open>Tokens\<close>

lemma scan_number_takeWhile:
  "scan_number cs number is_float index
     = (number @ takeWhile (\<lambda>c. c = CHR ''.'' \<or> is_number c) cs,
        is_float \<or> CHR ''.'' \<in> set (takeWhile (\<lambda>c. c = CHR ''.'' \<or> is_number c) cs),
        index + length (takeWhile (\<lambda>c. c = CHR ''.'' \<or> is_number c) cs))"
  by (induction cs arbitrary: number is_float index) auto

subsection \<open>Leaves that parse back\<close>

lemma digit_char_is_number: "d < 10 \<Longrightarrow> is_number (digit_char d)"
  by (simp add: is_number_def digit_char_def less_eq_char_def)

lemma digit_char_value: "d < 10 \<Longrightarrow> of_char (digit_char d) - of_char CHR ''0'' = d"
  by (simp add: digit_char_def)

lemma show_nat_digits: "c \<in> set (show_nat n) \<Longrightarrow> is_number c"
proof (induction n rule: show_nat.induct)
  case (1 n)
  then show ?case
    by (subst (asm) (2) show_nat.simps) (auto simp: digit_char_is_number split: if_splits)
qed

lemma show_nat_not_Nil: "show_nat n \<noteq> []"
  by (subst show_nat.simps) simp

lemma decimal_show_nat:
  "foldl (\<lambda>n c. 10 * n + (of_char c - of_char CHR ''0'')) 0 (show_nat n) = n"
proof (induction n rule: show_nat.induct)
  case (1 n)
  show ?case
  proof (cases "n < 10")
    case True
    then show ?thesis
      using digit_char_value [of n] by (subst show_nat.simps) simp
  next
    case False
    then show ?thesis
      using 1 digit_char_value [of "n mod 10"] by (subst show_nat.simps) simp
  qed
qed

lemma is_number_not_special:
  "is_number c \<Longrightarrow> \<not> isspace c \<and> c \<noteq> quote \<and> c \<noteq> CHR ''.'' \<and> c \<noteq> CHR '']''
     \<and> c \<noteq> CHR ''{'' \<and> c \<noteq> CHR ''['' \<and> c \<noteq> CHR ''t'' \<and> c \<noteq> CHR ''f''"
  by (auto simp: is_number_def isspace_def quote_def less_eq_char_def)

lemma quote_not_special:
  "\<not> isspace quote" "\<not> is_number quote" "quote \<noteq> CHR ''{''" "quote \<noteq> CHR ''[''"
  "quote \<noteq> CHR '']''" "quote \<noteq> CHR ''}''" "quote \<noteq> CHR ''t''" "quote \<noteq> CHR ''f''"
  "quote \<noteq> CHR '':''" "quote \<noteq> CHR '',''"
  by (simp_all add: quote_def is_number_def isspace_def less_eq_char_def)

lemma sint_bound: "nat (sint (i :: 32 word)) < 2 ^ 31"
  using sint_lt [of i] by simp

lemma atoi_show_nat:
  assumes "0 \<le> sint i"
  shows "atoi (show_nat (nat (sint i))) = Ok i"
proof -
  have "takeWhile is_number (show_nat (nat (sint i))) = show_nat (nat (sint i))"
    by (simp add: show_nat_digits)
  then have "atoi (show_nat (nat (sint i)))
      = (if nat (sint i) < 2 ^ 31 then Ok (word_of_nat (nat (sint i))) else Undefined)"
    unfolding atoi_def Let_def decimal_show_nat by (simp only: decimal_show_nat)
  then show ?thesis
    using assms sint_bound [of i] by simp
qed

lemma remove_whitespace_plain:
  "\<forall>c \<in> set s. \<not> isspace c \<and> c \<noteq> quote
   \<Longrightarrow> remove_whitespace b (s @ r) = s @ remove_whitespace b r"
  by (induction s) (auto simp: Let_def)

lemma remove_whitespace_inside:
  "quote \<notin> set s \<Longrightarrow> remove_whitespace True (s @ r) = s @ remove_whitespace True r"
  by (induction s) (auto simp: Let_def)

lemma ws_free_Nil: "ws_free []"
  by (simp add: ws_free_def)

lemma ws_free_append: "ws_free a \<Longrightarrow> ws_free b \<Longrightarrow> ws_free (a @ b)"
  by (simp add: ws_free_def)

lemma ws_free_plain: "\<forall>c \<in> set s. \<not> isspace c \<and> c \<noteq> quote \<Longrightarrow> ws_free s"
  by (simp add: ws_free_def remove_whitespace_plain)

lemma ws_free_quoted: "quote \<notin> set s \<Longrightarrow> ws_free (quote # s @ [quote])"
  by (simp add: ws_free_def remove_whitespace_inside Let_def quote_not_special)

lemma scan_string_quote:
  "quote \<notin> set s \<Longrightarrow> scan_string (s @ quote # r) acc index = Ok (acc @ s, index + length s)"
  by (induction s arbitrary: acc index) auto

lemma takeWhile_token:
  "\<forall>c \<in> set s. P c \<Longrightarrow> (case r of [] \<Rightarrow> True | c # _ \<Rightarrow> \<not> P c) \<Longrightarrow> takeWhile P (s @ r) = s"
  by (induction s) (auto split: list.splits)

lemma parses_to_true: "parses_to ''true'' (Tree (ValueNode (bool_v True)))"
  unfolding parses_to_def
proof (intro allI impI)
  fix pre rest :: string and fuel :: nat
  assume "length ''true'' < fuel"
  then obtain f where fuel: "fuel = Suc f" by (cases fuel) auto
  show "parseRecursively fuel (pre @ ''true'' @ rest) (length pre)
      = Ok (Tree (ValueNode (bool_v True)), length pre + length ''true'')"
    by (simp add: fuel string_at_def parseValue_def)
qed

lemma parses_to_false: "parses_to ''false'' (Tree (ValueNode (bool_v False)))"
  unfolding parses_to_def
proof (intro allI impI)
  fix pre rest :: string and fuel :: nat
  assume "length ''false'' < fuel"
  then obtain f where fuel: "fuel = Suc f" by (cases fuel) auto
  show "parseRecursively fuel (pre @ ''false'' @ rest) (length pre)
      = Ok (Tree (ValueNode (bool_v False)), length pre + length ''false'')"
    by (simp add: fuel string_at_def parseValue_def)
qed

lemma parses_to_string:
  assumes "quote \<notin> set s"
  shows "parses_to (quote # s @ [quote]) (Tree (ValueNode (string_v s)))"
  unfolding parses_to_def
proof (intro allI impI)
  fix pre rest :: string and fuel :: nat
  assume "length (quote # s @ [quote]) < fuel"
  then obtain f where fuel: "fuel = Suc f" by (cases fuel) auto
  show "parseRecursively fuel (pre @ (quote # s @ [quote]) @ rest) (length pre)
      = Ok (Tree (ValueNode (string_v s)), length pre + length (quote # s @ [quote]))"
    using assms
    by (simp add: fuel string_at_def parseValue_def scan_string_quote quote_not_special)
qed

lemma parses_to_int:
  assumes "0 \<le> sint i"
  shows "parses_to (show_int i) (Tree (ValueNode (int_v i)))"
  unfolding parses_to_def
proof (intro allI impI)
  fix pre rest :: string and fuel :: nat
  let ?s = "show_nat (nat (sint i))"
  assume rest: "delimited rest" and "length (show_int i) < fuel"
  then obtain f where fuel: "fuel = Suc f" by (cases fuel) auto
  have s: "show_int i = ?s"
    using assms by (simp add: show_int_def)
  obtain c cs where ccs: "?s = c # cs"
    using show_nat_not_Nil [of "nat (sint i)"] by (cases ?s) auto
  have c: "is_number c"
    using show_nat_digits [of c "nat (sint i)"] by (simp add: ccs)
  have "takeWhile (\<lambda>c. c = CHR ''.'' \<or> is_number c) (?s @ rest) = ?s"
    using rest by (intro takeWhile_token) (auto simp: show_nat_digits split: list.splits)
  then have tw: "takeWhile (\<lambda>c. c = CHR ''.'' \<or> is_number c) (c # cs @ rest) = c # cs"
    by (simp add: ccs)
  have nodot: "CHR ''.'' \<notin> set (c # cs)"
    using show_nat_digits [of _ "nat (sint i)"] is_number_not_special unfolding ccs by blast
  have at: "atoi (c # cs) = Ok i"
    using atoi_show_nat [OF assms] by (simp add: ccs)
  have "parseRecursively (Suc f) (pre @ (c # cs) @ rest) (length pre)
      = Ok (Tree (ValueNode (int_v i)), length pre + length (c # cs))"
    using c is_number_not_special [OF c] nodot
    by (simp add: parseValue_def string_at_def scan_number_takeWhile tw at del: takeWhile.simps)
  then show "parseRecursively fuel (pre @ show_int i @ rest) (length pre)
      = Ok (Tree (ValueNode (int_v i)), length pre + length (show_int i))"
    by (simp add: fuel s ccs)
qed

subsection \<open>Lists that parse back\<close>

lemma string_at_here: "string_at (pre @ c # r) (length pre) = c"
  by (simp add: string_at_def)

lemma string_at_after: "string_at (pre @ s @ c # r) (length pre + length s) = c"
  using string_at_here [of "pre @ s" c r] by simp

lemma parseList_loop_end:
  "parseList_loop (Suc f) (pre @ CHR '']'' # rest) (length pre) acc
     = Ok (Tree (ListNode acc), Suc (length pre))"
  by (simp add: string_at_here)

lemma parseList_loop_step:
  assumes "parseRecursively f json index = Ok (t, index2)"
    and "index \<le> length json" and "index2 \<le> length json"
    and "string_at json index \<noteq> CHR '']''"
  shows "parseList_loop (Suc f) json index acc
     = parseList_loop f json
         (if string_at json index2 \<noteq> CHR '']'' then Suc index2 else index2) (acc @ [t])"
  using assms by simp

lemma parseList_loop_renders:
  assumes "\<forall>c \<in> set cs. \<exists>text t. renders n h c text t"
  shows "\<exists>body ts.
           ListNode_dump n h cs = Some body
         \<and> list_all2 (\<lambda>c t. same_tree n h c t) cs ts
         \<and> ws_free body
         \<and> (\<forall>pre rest fuel acc. length body + 2 \<le> fuel \<longrightarrow>
               parseList_loop fuel (pre @ body @ CHR '']'' # rest) (length pre) acc
                 = Ok (Tree (ListNode (acc @ ts)), length pre + length body + 1))"
  using assms
proof (induction cs)
  case Nil
  have "parseList_loop fuel (pre @ CHR '']'' # rest) (length pre) acc
      = Ok (Tree (ListNode acc), Suc (length pre))" if "2 \<le> fuel" for pre rest fuel acc
  proof -
    from that obtain f where "fuel = Suc f" by (cases fuel) auto
    then show ?thesis by (simp add: string_at_here)
  qed
  then show ?case
    by (simp add: ws_free_Nil)
next
  case (Cons c cs)
  from Cons.prems obtain s t where r: "renders n h c s t"
    by auto
  then have s: "dump n h c = Some s" "same_tree n h c t" "s \<noteq> []" "hd s \<noteq> CHR '']''"
    "ws_free s" "parses_to s t"
    by (simp_all add: renders_def)
  from Cons obtain body ts where
    body: "ListNode_dump n h cs = Some body" and
    ts: "list_all2 (\<lambda>c t. same_tree n h c t) cs ts" and
    ws: "ws_free body" and
    loop: "\<And>pre rest fuel acc. length body + 2 \<le> fuel \<Longrightarrow>
       parseList_loop fuel (pre @ body @ CHR '']'' # rest) (length pre) acc
         = Ok (Tree (ListNode (acc @ ts)), length pre + length body + 1)"
    by auto
  let ?sep = "if cs = [] then [] else '',''"
  let ?body = "s @ ?sep @ body"
  have "ListNode_dump n h (c # cs) = Some ?body"
    by (simp add: s body)
  moreover have "list_all2 (\<lambda>c t. same_tree n h c t) (c # cs) (t # ts)"
    by (simp add: s ts)
  moreover have "ws_free ?body"
    by (intro ws_free_append s ws ws_free_plain) (simp add: isspace_def quote_def)
  moreover have "parseList_loop fuel (pre @ ?body @ CHR '']'' # rest) (length pre) acc
      = Ok (Tree (ListNode (acc @ t # ts)), length pre + length ?body + 1)"
    if fuel: "length ?body + 2 \<le> fuel" for pre rest fuel acc
  proof -
    from fuel obtain f where f: "fuel = Suc f" by (cases fuel) auto
    let ?json = "pre @ ?body @ CHR '']'' # rest"
    have first: "string_at ?json (length pre) \<noteq> CHR '']''"
      using s(3,4) by (cases s) (simp_all add: string_at_def)
    have "delimited (?sep @ body @ CHR '']'' # rest)"
      using body by (cases "cs = []") (auto simp: is_number_def less_eq_char_def)
    moreover have "length s < f"
      using fuel f by simp
    ultimately have v: "parseRecursively f ?json (length pre) = Ok (t, length pre + length s)"
      using s(6) unfolding parses_to_def by (metis append.assoc)
    have step: "parseList_loop fuel ?json (length pre) acc
       = parseList_loop f ?json
           (if string_at ?json (length pre + length s) \<noteq> CHR '']'' then Suc (length pre + length s)
            else length pre + length s) (acc @ [t])"
      unfolding f by (rule parseList_loop_step [OF v _ _ first]) simp_all
    show ?thesis
    proof (cases "cs = []")
      case True
      then have b: "body = []"
        using body by simp
      have "string_at ?json (length pre + length s) = CHR '']''"
        using string_at_after [of pre s "CHR '']''" rest] by (simp add: True b)
      moreover have "parseList_loop f ((pre @ s) @ body @ CHR '']'' # rest) (length (pre @ s)) (acc @ [t])
         = Ok (Tree (ListNode ((acc @ [t]) @ ts)), length (pre @ s) + length body + 1)"
        using fuel f s(3) by (intro loop) (cases s, simp_all)
      ultimately show ?thesis
        using step by (simp add: True b)
    next
      case False
      have "string_at ?json (length pre + length s) = CHR '',''"
        using string_at_after [of pre s "CHR '',''" "body @ CHR '']'' # rest"] by (simp add: False)
      moreover have "parseList_loop f ((pre @ s @ '','') @ body @ CHR '']'' # rest)
           (length (pre @ s @ '','')) (acc @ [t])
         = Ok (Tree (ListNode ((acc @ [t]) @ ts)), length (pre @ s @ '','') + length body + 1)"
        using fuel f by (intro loop) (simp add: False)
      ultimately show ?thesis
        using step by (simp add: False)
    qed
  qed
  ultimately show ?case
    by blast
qed

subsection \<open>Objects that parse back\<close>

lemma parseObject_loop_end:
  "parseObject_loop (Suc f) (pre @ CHR ''}'' # rest) (length pre) acc
     = Ok (Tree (ObjectNode acc), Suc (length pre))"
  by (simp add: string_at_here)

lemma parseObject_loop_step:
  assumes "string_at json index = quote" and "index \<le> length json"
    and "scan_string (drop (Suc index) json) [] (Suc index) = Ok (key, index1)"
    and "parseRecursively f json (index1 + 2) = Ok (t, index2)"
    and "index2 \<le> length json"
  shows "parseObject_loop (Suc f) json index acc
     = parseObject_loop f json
         (if string_at json index2 \<noteq> CHR ''}'' then Suc index2 else index2)
         (addOrEditChild key t acc)"
  using assms by (simp add: quote_not_special)

lemma parseObject_loop_renders:
  assumes "\<forall>kv \<in> set kvs. quote \<notin> set (fst kv) \<and> (\<exists>text t. renders n h (snd kv) text t)"
    and "sorted_wrt (<) (map fst kvs)"
  shows "\<exists>body kts.
           ObjectNode_dump n h kvs = Some body
         \<and> map fst kvs = map fst kts
         \<and> list_all2 (\<lambda>c t. same_tree n h c t) (map snd kvs) (map snd kts)
         \<and> ws_free body
         \<and> (\<forall>pre rest fuel acc. length body + 2 \<le> fuel \<longrightarrow>
               (\<forall>k \<in> set (map fst acc). \<forall>k' \<in> set (map fst kvs). k < k') \<longrightarrow>
               parseObject_loop fuel (pre @ body @ CHR ''}'' # rest) (length pre) acc
                 = Ok (Tree (ObjectNode (acc @ kts)), length pre + length body + 1))"
  using assms
proof (induction kvs)
  case Nil
  have "parseObject_loop fuel (pre @ CHR ''}'' # rest) (length pre) acc
      = Ok (Tree (ObjectNode acc), Suc (length pre))" if "2 \<le> fuel" for pre rest fuel acc
  proof -
    from that obtain f where "fuel = Suc f" by (cases fuel) auto
    then show ?thesis by (simp add: string_at_here)
  qed
  then show ?case
    by (simp add: ws_free_Nil)
next
  case (Cons kv kvs)
  obtain key c where kv: "kv = (key, c)" by (cases kv)
  from Cons.prems obtain s t where key: "quote \<notin> set key" and r: "renders n h c s t"
    by (auto simp: kv)
  then have s: "dump n h c = Some s" "same_tree n h c t" "s \<noteq> []" "hd s \<noteq> CHR '']''"
    "ws_free s" "parses_to s t"
    by (simp_all add: renders_def)
  have later: "\<forall>k' \<in> set (map fst kvs). key < k'"
    using Cons.prems(2) by (simp add: kv)
  have "\<forall>kv \<in> set kvs. quote \<notin> set (fst kv) \<and> (\<exists>text t. renders n h (snd kv) text t)"
    and "sorted_wrt (<) (map fst kvs)"
    using Cons.prems by simp_all
  from Cons.IH [OF this] obtain body kts where
    body: "ObjectNode_dump n h kvs = Some body" and
    keys: "map fst kvs = map fst kts" and
    kts: "list_all2 (\<lambda>c t. same_tree n h c t) (map snd kvs) (map snd kts)" and
    ws: "ws_free body" and
    loop0: "\<forall>pre rest fuel acc. length body + 2 \<le> fuel \<longrightarrow>
       (\<forall>k \<in> set (map fst acc). \<forall>k' \<in> set (map fst kvs). k < k') \<longrightarrow>
       parseObject_loop fuel (pre @ body @ CHR ''}'' # rest) (length pre) acc
         = Ok (Tree (ObjectNode (acc @ kts)), length pre + length body + 1)"
    by blast
  have loop: "parseObject_loop fuel (pre @ body @ CHR ''}'' # rest) (length pre) acc
         = Ok (Tree (ObjectNode (acc @ kts)), length pre + length body + 1)"
    if "length body + 2 \<le> fuel"
      and "\<forall>k \<in> set (map fst acc). \<forall>k' \<in> set (map fst kvs). k < k'"
    for pre rest fuel acc
    using loop0 that by blast
  let ?sep = "if kvs = [] then [] else '',''"
  let ?head = "quote # key @ [quote, CHR '':'']"
  let ?body = "?head @ s @ ?sep @ body"
  have "ObjectNode_dump n h (kv # kvs) = Some ?body"
    by (simp add: kv s body)
  moreover have "map fst (kv # kvs) = map fst ((key, t) # kts)"
    by (simp add: kv keys)
  moreover have "list_all2 (\<lambda>c t. same_tree n h c t) (map snd (kv # kvs)) (map snd ((key, t) # kts))"
    by (simp add: kv s kts)
  moreover have "ws_free ?body"
  proof -
    have "ws_free (quote # key @ [quote])"
      by (rule ws_free_quoted [OF key])
    moreover have "ws_free '':''" and "ws_free ?sep"
      by (rule ws_free_plain; simp add: isspace_def quote_def)+
    ultimately have "ws_free ((quote # key @ [quote]) @ '':'' @ s @ ?sep @ body)"
      by (intro ws_free_append s ws)
    then show ?thesis by simp
  qed
  moreover have "parseObject_loop fuel (pre @ ?body @ CHR ''}'' # rest) (length pre) acc
      = Ok (Tree (ObjectNode (acc @ (key, t) # kts)), length pre + length ?body + 1)"
    if fuel: "length ?body + 2 \<le> fuel"
      and acc: "\<forall>k \<in> set (map fst acc). \<forall>k' \<in> set (map fst (kv # kvs)). k < k'"
    for pre rest fuel acc
  proof -
    from fuel obtain f where f: "fuel = Suc f" by (cases fuel) auto
    let ?json = "pre @ ?body @ CHR ''}'' # rest"
    let ?i1 = "Suc (length pre) + length key"
    let ?i2 = "length pre + length ?head + length s"
    have first: "string_at ?json (length pre) = quote"
      by (simp add: string_at_def)
    have scan: "scan_string (drop (Suc (length pre)) ?json) [] (Suc (length pre)) = Ok (key, ?i1)"
      using scan_string_quote [OF key, of _ "[]"] by simp
    have "delimited (?sep @ body @ CHR ''}'' # rest)"
      using body by (cases "kvs = []") (auto simp: is_number_def less_eq_char_def)
    moreover have "length s < f"
      using fuel f by simp
    ultimately have "parseRecursively f ((pre @ ?head) @ s @ ?sep @ body @ CHR ''}'' # rest)
         (length (pre @ ?head)) = Ok (t, length (pre @ ?head) + length s)"
      using s(6) unfolding parses_to_def by blast
    then have v: "parseRecursively f ?json (?i1 + 2) = Ok (t, ?i2)"
      by simp
    have step: "parseObject_loop fuel ?json (length pre) acc
       = parseObject_loop f ?json
           (if string_at ?json ?i2 \<noteq> CHR ''}'' then Suc ?i2 else ?i2)
           (addOrEditChild key t acc)"
      unfolding f by (rule parseObject_loop_step [OF first _ scan v]) simp_all
    have ins: "addOrEditChild key t acc = acc @ [(key, t)]"
      using acc by (intro addOrEditChild_last) (simp add: kv)
    have acc': "\<forall>k \<in> set (map fst (acc @ [(key, t)])). \<forall>k' \<in> set (map fst kvs). k < k'"
      using acc later by (auto simp: kv)
    show ?thesis
    proof (cases "kvs = []")
      case True
      then have b: "body = []"
        using body by simp
      have "string_at ?json ?i2 = CHR ''}''"
        using string_at_after [of "pre @ ?head" s "CHR ''}''" rest] by (simp add: True b)
      moreover have "parseObject_loop f ((pre @ ?head @ s) @ body @ CHR ''}'' # rest)
           (length (pre @ ?head @ s)) (acc @ [(key, t)])
         = Ok (Tree (ObjectNode ((acc @ [(key, t)]) @ kts)),
               length (pre @ ?head @ s) + length body + 1)"
        using fuel f acc' by (intro loop) simp_all
      ultimately show ?thesis
        using step ins by (simp add: True b add.assoc)
    next
      case False
      have "string_at ?json ?i2 = CHR '',''"
        using string_at_after [of "pre @ ?head" s "CHR '',''" "body @ CHR ''}'' # rest"]
        by (simp add: False)
      moreover have "parseObject_loop f ((pre @ ?head @ s @ '','') @ body @ CHR ''}'' # rest)
           (length (pre @ ?head @ s @ '','')) (acc @ [(key, t)])
         = Ok (Tree (ObjectNode ((acc @ [(key, t)]) @ kts)),
               length (pre @ ?head @ s @ '','') + length body + 1)"
        using fuel f acc' by (intro loop) (simp_all add: False)
      ultimately show ?thesis
        using step ins by (simp add: False quote_not_special add.assoc)
    qed
  qed
  ultimately show ?case
    by blast
qed

subsection \<open>Trees that parse back\<close>

lemma renders_leaf:
  assumes "a < length h" and "h ! a = ValueNode x" and "plain_leaf x"
  shows "renders (Suc n) h a (ValueNode_dump x) (Tree (ValueNode x))"
proof (cases x)
  case (bool_v b)
  have "ws_free ''true''" and "ws_free ''false''"
    by (rule ws_free_plain; simp add: isspace_def quote_def)+
  then show ?thesis
    using assms parses_to_true parses_to_false by (cases b) (simp_all add: renders_def bool_v)
next
  case (int_v i)
  let ?s = "show_nat (nat (sint i))"
  from assms int_v have nonneg: "0 \<le> sint i"
    by simp
  then have s: "show_int i = ?s"
    by (simp add: show_int_def)
  have digits: "\<forall>c \<in> set ?s. is_number c"
    by (simp add: show_nat_digits)
  have "hd ?s \<in> set ?s"
    by (simp add: show_nat_not_Nil)
  with digits have "hd ?s \<noteq> CHR '']''"
    using is_number_not_special by blast
  moreover have "ws_free ?s"
    using digits is_number_not_special by (intro ws_free_plain) blast
  ultimately show ?thesis
    using assms parses_to_int [OF nonneg]
    by (simp add: renders_def int_v s show_nat_not_Nil)
next
  case (string_v s)
  with assms have "quote \<notin> set s"
    by simp
  then show ?thesis
    using assms parses_to_string [of s] ws_free_quoted [of s]
    by (simp add: renders_def string_v quote_not_special)
next
  case (float_v f)
  with assms show ?thesis
    by simp
qed

lemma renders_list:
  assumes "a < length h" and "h ! a = ListNode cs"
    and "\<forall>c \<in> set cs. \<exists>text t. renders n h c text t"
  shows "\<exists>text t. renders (Suc n) h a text t"
proof -
  from parseList_loop_renders [OF assms(3)] obtain body ts where
    body: "ListNode_dump n h cs = Some body" and
    ts: "list_all2 (\<lambda>c t. same_tree n h c t) cs ts" and
    ws: "ws_free body" and
    loop0: "\<forall>pre rest fuel acc. length body + 2 \<le> fuel \<longrightarrow>
       parseList_loop fuel (pre @ body @ CHR '']'' # rest) (length pre) acc
         = Ok (Tree (ListNode (acc @ ts)), length pre + length body + 1)"
    by blast
  let ?text = "''['' @ body @ '']''"
  have "ws_free ''[''" and "ws_free '']''"
    by (rule ws_free_plain; simp add: isspace_def quote_def)+
  then have "ws_free ?text"
    by (intro ws_free_append ws)
  moreover have "parses_to ?text (Tree (ListNode ts))"
    unfolding parses_to_def
  proof (intro allI impI)
    fix pre rest :: string and fuel :: nat
    assume "length ?text < fuel"
    then obtain f where f: "fuel = Suc f" and enough: "length body + 2 \<le> f"
      by (cases fuel) auto
    have "parseList_loop f ((pre @ ''['') @ body @ CHR '']'' # rest) (length (pre @ ''['')) []
        = Ok (Tree (ListNode ([] @ ts)), length (pre @ ''['') + length body + 1)"
      using loop0 enough by blast
    then show "parseRecursively fuel (pre @ ?text @ rest) (length pre)
        = Ok (Tree (ListNode ts), length pre + length ?text)"
      by (simp add: f string_at_def)
  qed
  ultimately have "renders (Suc n) h a ?text (Tree (ListNode ts))"
    using assms(1,2) body ts by (simp add: renders_def)
  then show ?thesis
    by blast
qed

lemma renders_object:
  assumes "a < length h" and "h ! a = ObjectNode kvs"
    and "\<forall>kv \<in> set kvs. quote \<notin> set (fst kv) \<and> (\<exists>text t. renders n h (snd kv) text t)"
    and "sorted_wrt (<) (map fst kvs)"
  shows "\<exists>text t. renders (Suc n) h a text t"
proof -
  from parseObject_loop_renders [OF assms(3,4)] obtain body kts where
    body: "ObjectNode_dump n h kvs = Some body" and
    keys: "map fst kvs = map fst kts" and
    kts: "list_all2 (\<lambda>c t. same_tree n h c t) (map snd kvs) (map snd kts)" and
    ws: "ws_free body" and
    loop0: "\<forall>pre rest fuel acc. length body + 2 \<le> fuel \<longrightarrow>
       (\<forall>k \<in> set (map fst acc). \<forall>k' \<in> set (map fst kvs). k < k') \<longrightarrow>
       parseObject_loop fuel (pre @ body @ CHR ''}'' # rest) (length pre) acc
         = Ok (Tree (ObjectNode (acc @ kts)), length pre + length body + 1)"
    by blast
  let ?text = "''{'' @ body @ ''}''"
  have "ws_free ''{''" and "ws_free ''}''"
    by (rule ws_free_plain; simp add: isspace_def quote_def)+
  then have "ws_free ?text"
    by (intro ws_free_append ws)
  moreover have "parses_to ?text (Tree (ObjectNode kts))"
    unfolding parses_to_def
  proof (intro allI impI)
    fix pre rest :: string and fuel :: nat
    assume "length ?text < fuel"
    then obtain f where f: "fuel = Suc f" and enough: "length body + 2 \<le> f"
      by (cases fuel) auto
    have "\<forall>k \<in> set (map fst ([] :: (string \<times> tree) list)). \<forall>k' \<in> set (map fst kvs). k < k'"
      by simp
    with loop0 enough
    have "parseObject_loop f ((pre @ ''{'') @ body @ CHR ''}'' # rest) (length (pre @ ''{'')) []
        = Ok (Tree (ObjectNode ([] @ kts)), length (pre @ ''{'') + length body + 1)"
      by blast
    then show "parseRecursively fuel (pre @ ?text @ rest) (length pre)
        = Ok (Tree (ObjectNode kts), length pre + length ?text)"
      by (simp add: f string_at_def)
  qed
  ultimately have "renders (Suc n) h a ?text (Tree (ObjectNode kts))"
    using assms(1,2) body keys kts by (simp add: renders_def)
  then show ?thesis
    by blast
qed

lemma plain_tree_renders:
  "plain_tree n h a \<Longrightarrow> \<exists>text t. renders n h a text t"
proof (induction n arbitrary: a)
  case 0
  then show ?case by simp
next
  case (Suc n)
  then have a: "a < length h"
    by simp
  show ?case
  proof (cases "h ! a")
    case NullNode
    with Suc.prems show ?thesis by simp
  next
    case (ValueNode x)
    with Suc.prems renders_leaf [OF a ValueNode] show ?thesis
      by auto
  next
    case (ListNode cs)
    with Suc.prems have "\<forall>c \<in> set cs. plain_tree n h c"
      by (simp add: list_all_iff)
    with Suc.IH have "\<forall>c \<in> set cs. \<exists>text t. renders n h c text t"
      by blast
    then show ?thesis
      by (rule renders_list [OF a ListNode])
  next
    case (ObjectNode kvs)
    with Suc.prems have sorted: "sorted_wrt (<) (map fst kvs)"
      and "\<forall>kv \<in> set kvs. quote \<notin> set (fst kv) \<and> plain_tree n h (snd kv)"
      by (simp_all add: list_all_iff)
    with Suc.IH
    have "\<forall>kv \<in> set kvs. quote \<notin> set (fst kv) \<and> (\<exists>text t. renders n h (snd kv) text t)"
      by blast
    then show ?thesis
      using sorted by (rule renders_object [OF a ObjectNode])
  qed
qed

lemma renders_parse:
  assumes "renders n h a out t"
  shows "parse out = Ok t"
proof -
  from assms have ws: "ws_free out" and p: "parses_to out t"
    by (simp_all add: renders_def)
  from ws have "remove_whitespace False (out @ []) = out @ remove_whitespace False []"
    unfolding ws_free_def by (rule spec)
  then have clean: "remove_whitespace False out = out"
    by simp
  have "delimited []" and "length out < length out + length out + 2"
    by simp_all
  with p have "parseRecursively (length out + length out + 2) ([] @ out @ []) (length ([] :: string))
      = Ok (t, length ([] :: string) + length out)"
    unfolding parses_to_def by blast
  then show ?thesis
    by (simp add: parse_def clean)
qed

subsection \<open>The parser runs within its bound\<close>

lemma scan_string_index:
  "scan_string cs acc index = Ok (s, index') \<Longrightarrow> index \<le> index'"
proof (induction cs arbitrary: acc index)
  case Nil
  then show ?case by simp
next
  case (Cons c cs)
  show ?case
  proof (cases "c = quote")
    case True
    with Cons.prems show ?thesis by simp
  next
    case False
    with Cons.prems have "scan_string cs (acc @ [c]) (Suc index) = Ok (s, index')"
      by simp
    then have "Suc index \<le> index'"
      by (rule Cons.IH)
    then show ?thesis by simp
  qed
qed

lemma parseValue_progress:
  assumes "parseValue json index = Ok (t, index')"
  shows "index < index'"
proof (cases "is_number (string_at json index)")
  case True
  then have lt: "index < length json"
    by (auto simp: string_at_def is_number_def less_eq_char_def split: if_splits)
  then have d: "drop index json = json ! index # drop (Suc index) json"
    by (simp add: Cons_nth_drop_Suc)
  have "is_number (json ! index)"
    using True lt by (simp add: string_at_def)
  then have "0 < length (takeWhile (\<lambda>c. c = CHR ''.'' \<or> is_number c) (drop index json))"
    by (simp add: d)
  then show ?thesis
    using assms True
    by (auto simp: parseValue_def scan_number_takeWhile split: if_splits outcome.splits)
next
  case False
  then show ?thesis
    using assms
    by (auto simp: parseValue_def split: if_splits outcome.splits dest!: scan_string_index)
qed

lemma parseValue_not_OutOfFuel: "parseValue json index \<noteq> OutOfFuel"
  by (auto simp: parseValue_def split: if_splits outcome.splits prod.splits)

lemma parse_progress:
  "(\<forall>i t i'. parseRecursively n json i = Ok (t, i') \<longrightarrow> i < i')
   \<and> (\<forall>i acc t i'. parseObject_loop n json i acc = Ok (t, i') \<longrightarrow> i < i')
   \<and> (\<forall>i acc t i'. parseList_loop n json i acc = Ok (t, i') \<longrightarrow> i < i')"
proof (induction n)
  case 0
  show ?case by simp
next
  case (Suc n)
  then have R: "\<And>i t i'. parseRecursively n json i = Ok (t, i') \<Longrightarrow> i < i'"
    and O: "\<And>i acc t i'. parseObject_loop n json i acc = Ok (t, i') \<Longrightarrow> i < i'"
    and L: "\<And>i acc t i'. parseList_loop n json i acc = Ok (t, i') \<Longrightarrow> i < i'"
    by blast+
  have "i < i'" if "parseRecursively (Suc n) json i = Ok (t, i')" for i t i'
    using that O [of "Suc i" "[]" t i'] L [of "Suc i" "[]" t i'] parseValue_progress [of json i t i']
    by (auto split: if_splits)
  moreover have "i < i'" if "parseObject_loop (Suc n) json i acc = Ok (t, i')" for i acc t i'
  proof -
    show ?thesis
      using that
      by (auto split: if_splits outcome.splits prod.splits
          dest!: scan_string_index R O)
  qed
  moreover have "i < i'" if "parseList_loop (Suc n) json i acc = Ok (t, i')" for i acc t i'
    using that
    by (auto split: if_splits outcome.splits prod.splits dest!: R L)
  ultimately show ?case
    by blast
qed


lemma parse_fuel:
  "(\<forall>i. 2 * (length json - i) + 1 \<le> n \<longrightarrow> parseRecursively n json i \<noteq> OutOfFuel)
   \<and> (\<forall>i acc. 2 * (length json - i) + 2 \<le> n \<longrightarrow> parseObject_loop n json i acc \<noteq> OutOfFuel)
   \<and> (\<forall>i acc. 2 * (length json - i) + 2 \<le> n \<longrightarrow> parseList_loop n json i acc \<noteq> OutOfFuel)"
proof (induction n)
  case 0
  show ?case by simp
next
  case (Suc n)
  then have R: "\<And>i. 2 * (length json - i) + 1 \<le> n \<Longrightarrow> parseRecursively n json i \<noteq> OutOfFuel"
    and O: "\<And>i acc. 2 * (length json - i) + 2 \<le> n
        \<Longrightarrow> parseObject_loop n json i acc \<noteq> OutOfFuel"
    and L: "\<And>i acc. 2 * (length json - i) + 2 \<le> n
        \<Longrightarrow> parseList_loop n json i acc \<noteq> OutOfFuel"
    by blast+
  have "parseRecursively (Suc n) json i \<noteq> OutOfFuel"
    if fuel: "2 * (length json - i) + 1 \<le> Suc n" for i
  proof (cases "i < length json")
    case True
    with fuel have "2 * (length json - Suc i) + 2 \<le> n"
      by simp
    then show ?thesis
      using O [of "Suc i" "[]"] L [of "Suc i" "[]"] parseValue_not_OutOfFuel [of json i]
      by simp
  next
    case False
    then show ?thesis
      using parseValue_not_OutOfFuel [of json i] by (simp add: string_at_def)
  qed
  moreover have "parseObject_loop (Suc n) json i acc \<noteq> OutOfFuel"
    if fuel: "2 * (length json - i) + 2 \<le> Suc n" for i acc
  proof -
    have "parseObject_loop n json i3 acc' \<noteq> OutOfFuel"
      if "scan_string (drop (Suc i) json) [] (Suc i) = Ok (key, i1)"
        and "parseRecursively n json (i1 + 2) = Ok (v, i2)" and "i2 \<le> length json"
        and "i2 \<le> i3" for key i1 v i2 i3 acc'
    proof -
      have "i < i2"
        using that(1,2) scan_string_index parse_progress [of n json] by fastforce
      with that(3,4) fuel have "2 * (length json - i3) + 2 \<le> n"
        by simp
      then show ?thesis by (rule O)
    qed
    moreover have "parseRecursively n json (i1 + 2) \<noteq> OutOfFuel"
      if "scan_string (drop (Suc i) json) [] (Suc i) = Ok (key, i1)" for key i1
    proof -
      have "i < i1"
        using that scan_string_index by fastforce
      with fuel have "2 * (length json - (i1 + 2)) + 1 \<le> n"
        by simp
      then show ?thesis by (rule R)
    qed
    ultimately show ?thesis
      by (auto split: outcome.splits prod.splits)
  qed
  moreover have "parseList_loop (Suc n) json i acc \<noteq> OutOfFuel"
    if fuel: "2 * (length json - i) + 2 \<le> Suc n" for i acc
  proof -
    have "parseList_loop n json i3 acc' \<noteq> OutOfFuel"
      if "parseRecursively n json i = Ok (v, i2)" and "i2 \<le> length json"
        and "i2 \<le> i3" for v i2 i3 acc'
    proof -
      have "i < i2"
        using that(1) parse_progress [of n json] by blast
      with that(2,3) fuel have "2 * (length json - i3) + 2 \<le> n"
        by simp
      then show ?thesis by (rule L)
    qed
    moreover have "parseRecursively n json i \<noteq> OutOfFuel"
      using fuel by (intro R) simp
    ultimately show ?thesis
      by (auto split: outcome.splits prod.splits)
  qed
  ultimately show ?case
    by blast
qed

lemma parse_not_OutOfFuel: "parse str \<noteq> OutOfFuel"
proof -
  let ?s = "remove_whitespace False str"
  have "2 * (length ?s - 0) + 1 \<le> length ?s + length ?s + 2"
    by simp
  with parse_fuel [of ?s "length ?s + length ?s + 2"]
  have "parseRecursively (length ?s + length ?s + 2) ?s 0 \<noteq> OutOfFuel"
    by blast
  moreover have "(case r of Ok (t, index) \<Rightarrow> Ok t | Throw e \<Rightarrow> Throw e
      | Undefined \<Rightarrow> Undefined | OutOfFuel \<Rightarrow> OutOfFuel) \<noteq> OutOfFuel"
    if "r \<noteq> OutOfFuel" for r :: "(tree \<times> nat) outcome"
    using that by (cases r) auto
  ultimately show ?thesis
    unfolding parse_def Let_def by blast
qed

section \<open>The claims\<close>

text \<open>
  C1, as the code has it. On a document whose root is an empty Object, reading
  \<^verbatim>\<open>root[ka]\<close> inserts a \<^verbatim>\<open>NullNode\<close> under \<open>ka\<close> and returns a view of it; the chained
  read \<^verbatim>\<open>[kb]\<close> on that view throws \<^verbatim>\<open>WrongObjectType::NotObject()\<close> and inserts nothing,
  and the document then serializes to \<^verbatim>\<open>{"ka":null}\<close>. A missing key is vivified as a
  Null leaf, never as an intermediate Object.
\<close>

theorem autovivify_Null:
  assumes "root j < length h" and "h ! root j = ObjectNode []"
  shows "\<exists>h1 v. Json_index_key h j ka = Ok (h1, v)
           \<and> h1 ! node v = NullNode
           \<and> h1 ! root j = ObjectNode [(ka, node v)]
           \<and> View_index_key h1 v kb = Throw NotObject
           \<and> Json_dump 2 h1 j = Some (''{'' @ [quote] @ ka @ [quote] @ '':null}'')"
  using assms
  by (simp add: Json_index_key_def View_index_key_def index_key_def make_shared_def
      ObjectNode_addOrEditChild_def Json_dump_def numeral_2_eq_2 nth_append list_update_append)

theorem autovivify_Null_witness:
  \<open>\<exists>h1 v. Json_index_key [ObjectNode []] (Json 0) ''a'' = Ok (h1, v)
           \<and> h1 ! node v = NullNode
           \<and> h1 ! root (Json 0) = ObjectNode [(''a'', node v)]
           \<and> View_index_key h1 v ''b'' = Throw NotObject
           \<and> Json_dump 2 h1 (Json 0) = Some ''{"a":null}''\<close>
  using autovivify_Null [of "Json 0" "[ObjectNode []]" "''a''" "''b''"]
  by (simp add: quote_def)

text \<open>
  C1 as the specification states it fails: after \<^verbatim>\<open>root["a"]\<close> on the empty Object the
  child under \<^verbatim>\<open>a\<close> is Null, \<^verbatim>\<open>["b"]\<close> on it throws, and the text is \<^verbatim>\<open>{"a":null}\<close>, not
  \<^verbatim>\<open>{"a":{"b":null}}\<close>.
\<close>

theorem autovivify_counterexample:
  \<open>Json_object [] [] = ([ObjectNode []], Json 0)
   \<and> Json_index_key [ObjectNode []] (Json 0) ''a''
       = Ok ([ObjectNode [(''a'', 1)], NullNode], View 1)
   \<and> View_index_key [ObjectNode [(''a'', 1)], NullNode] (View 1) ''b'' = Throw NotObject
   \<and> Json_dump 2 [ObjectNode [(''a'', 1)], NullNode] (Json 0) = Some ''{"a":null}''
   \<and> Json_dump 2 [ObjectNode [(''a'', 1)], NullNode] (Json 0) \<noteq> Some ''{"a":{"b":null}}''\<close>
  by (simp add: Json_object_def make_shared_def Json_index_key_def View_index_key_def
      index_key_def ObjectNode_addOrEditChild_def Json_dump_def numeral_2_eq_2 quote_def)

text \<open>
  C2 at its failing input. \<^verbatim>\<open>as<std::string>()\<close> on a view of an Int node, and the
  assignment of a string to it, throw nothing: the unchecked \<^verbatim>\<open>static_pointer_cast\<close> makes
  both undefined. \<^verbatim>\<open>WrongObjectType::NotLeaf\<close> is declared and never thrown.
\<close>

theorem View_as_unchecked:
  "View_as string_t [ValueNode (int_v 5)] (View 0) = Undefined
   \<and> View_assign [ValueNode (int_v 5)] (View 0) (string_v ''five'') = Undefined"
  by (simp add: View_as_def View_assign_def)

text \<open>
  C5. On a node whose kind is not Object, key navigation through a view and through
  the document throws \<^verbatim>\<open>WrongObjectType::NotObject()\<close>.
\<close>

theorem index_key_not_Object:
  assumes "a < length h" and "Node_type (h ! a) \<noteq> Object"
  shows "View_index_key h (View a) key = Throw NotObject
       \<and> Json_index_key h (Json a) key = Throw NotObject"
  using assms by (simp add: View_index_key_def Json_index_key_def index_key_def)

theorem index_key_not_Object_witness:
  "View_index_key [ListNode []] (View 0) ''key'' = Throw NotObject
   \<and> Json_index_key [ListNode []] (Json 0) ''key'' = Throw NotObject"
  using index_key_not_Object [of 0 "[ListNode []]" "''key''"] by simp

text \<open>
  C8, as the code has it. Array and object construction store the given roots
  themselves: the new container becomes one more parent of each root it keeps (for an
  object, the root of the last pair of each key), every node keeps the parents it had,
  and the nodes that were there are unchanged. Children are shared, not owned by one
  parent.
\<close>

theorem construction_shares_children:
  "parents (fst (Json_array h list)) a
     = parents h a @ (if a \<in> root ` set list then [root (snd (Json_array h list))] else [])
   \<and> parents (fst (Json_object h pairs)) a
     = parents h a @
       (if a \<in> ran (map_of (rev (map (\<lambda>(key, v). (key, root v)) pairs)))
        then [root (snd (Json_object h pairs))] else [])
   \<and> take (length h) (fst (Json_array h list)) = h
   \<and> take (length h) (fst (Json_object h pairs)) = h"
  by (simp add: Json_array_eq Json_object_eq parents_append set_snd_insert_all [symmetric])

text \<open>
  C8 as the specification states it fails: the leaf made by \<^verbatim>\<open>Json(1)\<close>, put into an
  array and into an object, is a child of both.
\<close>

theorem two_parents_counterexample:
  "Json_leaf [] (int_v 1) = ([ValueNode (int_v 1)], Json 0)
   \<and> Json_array [ValueNode (int_v 1)] [Json 0] = ([ValueNode (int_v 1), ListNode [0]], Json 1)
   \<and> Json_object [ValueNode (int_v 1), ListNode [0]] [(''k'', Json 0)]
       = ([ValueNode (int_v 1), ListNode [0], ObjectNode [(''k'', 0)]], Json 2)
   \<and> parents [ValueNode (int_v 1), ListNode [0], ObjectNode [(''k'', 0)]] 0 = [1, 2]"
  by (simp add: Json_leaf_def make_shared_def Json_array_def Json_object_def ListNode_addChild_def
      ObjectNode_addOrEditChild_def parents_def upt_rec)

text \<open>
  C9. On an Object node, key navigation through the document and through a view do the
  same. A key that is present gives a view of its child and the heap as it was. A key
  that is absent gives a view of one new \<^verbatim>\<open>NullNode\<close>; the object's map gains that key
  and keeps every other entry, and every other node is unchanged.
\<close>

theorem index_key_frame:
  assumes "a < length h" and "h ! a = ObjectNode children"
  shows "Json_index_key h (Json a) key = View_index_key h (View a) key
    \<and> (case map_of children key of
         Some child \<Rightarrow> View_index_key h (View a) key = Ok (h, View child)
       | None \<Rightarrow>
          (\<exists>h' children'.
             View_index_key h (View a) key = Ok (h', View (length h))
           \<and> length h' = Suc (length h)
           \<and> h' ! length h = NullNode
           \<and> h' ! a = ObjectNode children'
           \<and> map_of children' = (map_of children)(key \<mapsto> length h)
           \<and> (\<forall>b < length h. b \<noteq> a \<longrightarrow> h' ! b = h ! b)))"
  using assms
  by (auto simp: View_index_key_def Json_index_key_def index_key_def make_shared_def
      ObjectNode_addOrEditChild_def nth_append map_of_addOrEditChild list_update_append
      split: option.splits)

theorem index_key_frame_witness:
  "View_index_key [ObjectNode [(''a'', 1)], NullNode] (View 0) ''a''
     = Ok ([ObjectNode [(''a'', 1)], NullNode], View 1)
   \<and> Json_index_key [ObjectNode [(''a'', 1)], NullNode] (Json 0) ''a''
     = Ok ([ObjectNode [(''a'', 1)], NullNode], View 1)
   \<and> (\<exists>h'. View_index_key [ObjectNode [(''a'', 1)], NullNode] (View 0) ''b'' = Ok (h', View 2)
          \<and> length h' = 3)"
  using index_key_frame [of 0 "[ObjectNode [(''a'', 1)], NullNode]" "[(''a'', 1)]" "''a''"]
    index_key_frame [of 0 "[ObjectNode [(''a'', 1)], NullNode]" "[(''a'', 1)]" "''b''"]
  by auto

text \<open>
  C10. \<^verbatim>\<open>Json(const char*)\<close> on a C string (characters with no NUL among them) allocates
  one node, a String leaf that holds those characters; nothing is parsed.
\<close>

theorem Json_cstr_String:
  assumes "CHR 0x00 \<notin> set chars"
  shows "Json_cstr h chars = (h @ [ValueNode (string_v chars)], Json (length h))
       \<and> Node_type (ValueNode (string_v chars) :: addr Node) = String"
  using assms
  by (auto simp: Json_cstr_def Json_leaf_def make_shared_def std_string_def ValueType_get_def)

theorem Json_cstr_String_witness:
  \<open>Json_cstr [] ''{"a":1}'' = ([ValueNode (string_v ''{"a":1}'')], Json 0)\<close>
  using Json_cstr_String [of \<open>''{"a":1}''\<close> "[]"] by simp

text \<open>
  C4 at its failing input. On \<^verbatim>\<open>{"a":}\<close> the parse ends in \<^verbatim>\<open>throw new Malformed()\<close>: what
  is thrown is a pointer, not the \<^verbatim>\<open>Malformed\<close> error that \<^verbatim>\<open>parseObject\<close> throws on a key
  with no opening quote.
\<close>

theorem parse_missing_value:
  \<open>parse ''{"a":}'' = Throw Malformed_ptr \<and> parse ''{a:1}'' = Throw Malformed\<close>
  by (simp add: parse_eval)

text \<open>
  C6, as the code has it. With a digit at the cursor, \<^verbatim>\<open>parseValue\<close> consumes the longest
  run of digits and \<^verbatim>\<open>.\<close> characters, however many \<^verbatim>\<open>.\<close> there are, and returns a Float
  when the run holds a \<^verbatim>\<open>.\<close> and else the Int that \<^verbatim>\<open>atoi\<close> reads from it.
\<close>

theorem parseValue_number:
  assumes "is_number (string_at json index)"
  shows "parseValue json index =
     (let number = takeWhile (\<lambda>c. c = CHR ''.'' \<or> is_number c) (drop index json)
      in if CHR ''.'' \<in> set number
         then Ok (Tree (ValueNode (float_v (atof number))), index + length number)
         else (case atoi number of
                 Ok i \<Rightarrow> Ok (Tree (ValueNode (int_v i)), index + length number)
               | _ \<Rightarrow> Undefined))"
proof -
  have lt: "index < length json"
    using assms by (auto simp: string_at_def is_number_def less_eq_char_def split: if_splits)
  then have d: "drop index json = json ! index # drop (Suc index) json"
    by (simp add: Cons_nth_drop_Suc)
  have c: "is_number (json ! index)"
    using assms lt by (simp add: string_at_def)
  then have "take 4 (drop index json) \<noteq> ''true''" and "take 5 (drop index json) \<noteq> ''false''"
    by (auto simp: d is_number_def less_eq_char_def)
  then show ?thesis
    using lt assms by (simp add: parseValue_def scan_number_takeWhile Let_def)
qed

theorem parseValue_number_witness:
  "is_number (string_at ''[42]'' 1)
   \<and> parseValue ''[42]'' 1 = Ok (Tree (ValueNode (int_v 42)), 3)"
proof -
  have h: "is_number (string_at ''[42]'' 1)"
    by (simp add: string_at_def is_number_def less_eq_char_def)
  show ?thesis
    using h parseValue_number [OF h] by (simp add: Let_def is_number_def less_eq_char_def atoi_def)
qed

text \<open>
  C6 as the specification states it fails: on \<^verbatim>\<open>1.2.3\<close> the token consumed is all five
  characters, where the longest run with at most one \<^verbatim>\<open>.\<close> is \<^verbatim>\<open>1.2\<close>.
\<close>

theorem parseValue_two_dots_counterexample:
  "parseValue ''1.2.3'' 0 = Ok (Tree (ValueNode (float_v (atof ''1.2.3''))), 5)
   \<and> spec_number_run False ''1.2.3'' = ''1.2''"
  by (simp add: parse_eval)

text \<open>
  C7. The first pass of \<^verbatim>\<open>parse\<close> is the pass of the specification: it drops exactly
  the whitespace characters at which the quote flag is off, and keeps every other
  character in order.
\<close>

theorem remove_whitespace_spec:
  "remove_whitespace False str = spec_remove_whitespace str"
proof (induction str rule: rev_induct)
  case Nil
  show ?case by (simp add: spec_remove_whitespace_def)
next
  case (snoc x xs)
  then show ?case
    by (auto simp: remove_whitespace_append spec_remove_whitespace_snoc Let_def isspace_def
        quote_def)
qed

text \<open>
  C3, as the code has it. A tree of the heap made of Bool leaves, Int leaves that are
  not negative, String leaves with no quote in them, Lists, and Objects whose keys hold
  no quote serializes to a text, the text parses, and the parsed tree equals the tree of
  the heap in kind and leaf value at every position, the object keys in the same order.
\<close>

theorem roundtrip_plain_tree:
  assumes "plain_tree n h (root j)"
  shows "\<exists>text t. Json_dump n h j = Some text \<and> parse text = Ok t \<and> same_tree n h (root j) t"
proof -
  from plain_tree_renders [OF assms] obtain out t where r: "renders n h (root j) out t"
    by blast
  then have "Json_dump n h j = Some out" and "same_tree n h (root j) t"
    by (simp_all add: renders_def Json_dump_def)
  with renders_parse [OF r] show ?thesis
    by blast
qed

theorem roundtrip_plain_tree_witness:
  \<open>Json_object
     [ValueNode (int_v 12), ValueNode (bool_v True), ListNode [0, 1], ValueNode (string_v ''x y'')]
     [(''b'', Json 3), (''a'', Json 2)]
     = ([ValueNode (int_v 12), ValueNode (bool_v True), ListNode [0, 1],
         ValueNode (string_v ''x y''), ObjectNode [(''a'', 2), (''b'', 3)]], Json 4)
   \<and> plain_tree 3
       [ValueNode (int_v 12), ValueNode (bool_v True), ListNode [0, 1],
        ValueNode (string_v ''x y''), ObjectNode [(''a'', 2), (''b'', 3)]] 4
   \<and> Json_dump 3
       [ValueNode (int_v 12), ValueNode (bool_v True), ListNode [0, 1],
        ValueNode (string_v ''x y''), ObjectNode [(''a'', 2), (''b'', 3)]] (Json 4)
     = Some ''{"a":[12,true],"b":"x y"}''
   \<and> (\<exists>out t.
         Json_dump 3
           [ValueNode (int_v 12), ValueNode (bool_v True), ListNode [0, 1],
            ValueNode (string_v ''x y''), ObjectNode [(''a'', 2), (''b'', 3)]] (Json 4) = Some out
       \<and> parse out = Ok t
       \<and> same_tree 3
           [ValueNode (int_v 12), ValueNode (bool_v True), ListNode [0, 1],
            ValueNode (string_v ''x y''), ObjectNode [(''a'', 2), (''b'', 3)]] 4 t)\<close>
proof -
  let ?h = "[ValueNode (int_v 12), ValueNode (bool_v True), ListNode [0, 1],
      ValueNode (string_v ''x y''), ObjectNode [(''a'', 2), (''b'', 3)]]"
  have b: "Json_object
     [ValueNode (int_v 12), ValueNode (bool_v True), ListNode [0, 1], ValueNode (string_v ''x y'')]
     [(''b'', Json 3), (''a'', Json 2)] = (?h, Json 4)"
    by (simp add: Json_object_def make_shared_def ObjectNode_addOrEditChild_def)
  have p: "plain_tree 3 ?h (root (Json 4))"
    by (simp add: numeral_3_eq_3 quote_def)
  have d: \<open>Json_dump 3 ?h (Json 4) = Some ''{"a":[12,true],"b":"x y"}''\<close>
    by (simp add: Json_dump_def numeral_3_eq_3 quote_def show_int_def show_nat.simps
        digit_char_simps)
  from b p d roundtrip_plain_tree [OF p] show ?thesis
    by (intro conjI) simp_all
qed

text \<open>
  C3 as the specification states it fails. The document \<^verbatim>\<open>Json(-1)\<close> serializes to
  \<^verbatim>\<open>-1\<close>, which the parser, having no sign handling, rejects. A Null child, as key
  navigation inserts it, serializes to \<^verbatim>\<open>null\<close>, which the parser rejects too. The
  String \<^verbatim>\<open>a"b\<close> serializes to \<^verbatim>\<open>"a"b"\<close>, which parses to the String \<^verbatim>\<open>a\<close>.
\<close>

theorem roundtrip_negative_counterexample:
  \<open>Json_leaf [] (int_v (- 1)) = ([ValueNode (int_v (- 1))], Json 0)
   \<and> Json_dump 1 [ValueNode (int_v (- 1))] (Json 0) = Some ''-1''
   \<and> parse ''-1'' = Throw Malformed_ptr
   \<and> Json_dump 2 [ObjectNode [(''a'', 1)], NullNode] (Json 0) = Some ''{"a":null}''
   \<and> parse ''{"a":null}'' = Throw Malformed_ptr
   \<and> Json_dump 1 [ValueNode (string_v ''a"b'')] (Json 0) = Some ''"a"b"''
   \<and> parse ''"a"b"'' = Ok (Tree (ValueNode (string_v ''a'')))\<close>
  by (simp add: Json_leaf_def make_shared_def Json_dump_def show_int_def show_nat.simps
      digit_char_simps parse_eval numeral_2_eq_2)

end
